theory Spec2Isabelle
  imports Main "HOL-Library.Word"
begin

section \<open>Event bus (eventbus.cc)\<close>

subsection \<open>Data\<close>

text \<open>
  Modelled from the spec: the class \<open>eventbus_event\<close> is declared in eventbus.h, which is
  not part of the sources at hand. eventbus.cc constructs it from an integer and the event
  type string (\<open>make_shared<eventbus_event>(eventbus_event_id, event_type)\<close>) and the
  dispatcher uses \<open>get_event_id()\<close> as a key of the string-keyed \<open>callback_table\<close>, the
  "event's channel" of the spec. The record keeps the two constructor arguments and the
  opaque payload (\<open>content\<close>, which a producer fills in after it got the shell);
  \<open>get_event_id\<close> reads the channel string.
\<close>

record 'p eventbus_event =
  tracker_id :: int
  event_type :: string
  content :: "'p option"

definition get_event_id :: "'p eventbus_event \<Rightarrow> string" where
  "get_event_id e = event_type e"

text \<open>
  A handler is a \<open>std::function\<close> called as \<open>cbl->cb(e)\<close>. What the bus can observe of a
  call is whether it returns or throws; whatever else the handler does lies outside the bus.
\<close>

datatype cb_result = Returned | Threw

type_synonym 'p cb_func = "'p eventbus_event \<Rightarrow> cb_result"

record 'p callback_listener =
  channels :: "string list"
  cb :: "'p cb_func"
  cbl_id :: "64 word"

text \<open>
  The members of \<open>event_bus\<close> that eventbus.cc reads and writes. \<open>next_cbl_id\<close> is an
  \<open>unsigned long\<close>, taken as 64 bits wide; \<open>callback_table\<close> maps a channel name to the
  vector of its listeners, \<open>callback_id_table\<close> a subscription id to its listener.
\<close>

record 'p event_bus =
  next_cbl_id :: "64 word"
  shutdown :: bool
  eventbus_event_id :: int
  event_queue :: "'p eventbus_event list"
  callback_table :: "string \<rightharpoonup> 'p callback_listener list"
  callback_id_table :: "64 word \<rightharpoonup> 'p callback_listener"

subsection \<open>Constructor and event factory\<close>

text \<open>
  \<open>event_bus::event_bus()\<close>. The entry tracker is not part of the sources at hand, so the
  value that \<open>register_field("kismet.eventbus.event", ...)\<close> returns is the parameter
  \<open>field_id\<close>. It is fetched once, here, for the fixed field name.
\<close>

definition new_event_bus :: "int \<Rightarrow> 'p event_bus" where
  "new_event_bus field_id =
     \<lparr> next_cbl_id = 1,
       shutdown = False,
       eventbus_event_id = field_id,
       event_queue = [],
       callback_table = Map.empty,
       callback_id_table = Map.empty \<rparr>"

text \<open>\<open>event_bus::get_eventbus_event\<close>: a new event shell, with no payload yet.\<close>

definition get_eventbus_event :: "'p event_bus \<Rightarrow> string \<Rightarrow> 'p eventbus_event" where
  "get_eventbus_event b event_type_arg =
     \<lparr> tracker_id = eventbus_event_id b, event_type = event_type_arg, content = None \<rparr>"

text \<open>
  Modelled from the spec: \<open>publish\<close> is a template member defined in eventbus.h, which is
  not part of the sources at hand. The spec: enqueue at the tail of the dispatch queue.
\<close>

definition publish :: "'p eventbus_event \<Rightarrow> 'p event_bus \<Rightarrow> 'p event_bus" where
  "publish e b = b\<lparr> event_queue := event_queue b @ [e] \<rparr>"

subsection \<open>Registration and removal\<close>

text \<open>\<open>callback_table[c]\<close>: \<open>operator[]\<close> of \<open>std::map\<close> inserts an empty vector for a new key.\<close>

definition table_at ::
  "(string \<rightharpoonup> 'p callback_listener list) \<Rightarrow> string \<Rightarrow> 'p callback_listener list" where
  "table_at t c = (case t c of None \<Rightarrow> [] | Some ls \<Rightarrow> ls)"

definition table_touch ::
  "(string \<rightharpoonup> 'p callback_listener list) \<Rightarrow> string \<Rightarrow> (string \<rightharpoonup> 'p callback_listener list)" where
  "table_touch t c = (case t c of None \<Rightarrow> t(c \<mapsto> []) | Some ls \<Rightarrow> t)"

text \<open>\<open>callback_table[c].push_back(cbl)\<close>\<close>

definition table_push_back ::
  "string \<Rightarrow> 'p callback_listener \<Rightarrow> (string \<rightharpoonup> 'p callback_listener list)
     \<Rightarrow> (string \<rightharpoonup> 'p callback_listener list)" where
  "table_push_back c l t = t(c \<mapsto> table_at t c @ [l])"

text \<open>\<open>register_listener(const std::string& channel, cb_func cb)\<close>\<close>

definition register_listener ::
  "string \<Rightarrow> 'p cb_func \<Rightarrow> 'p event_bus \<Rightarrow> 64 word \<times> 'p event_bus" where
  "register_listener channel f b =
     (let cbl = \<lparr> channels = [channel], cb = f, cbl_id = next_cbl_id b \<rparr>
      in (cbl_id cbl,
          b\<lparr> next_cbl_id := next_cbl_id b + 1,
             callback_table := table_push_back channel cbl (callback_table b),
             callback_id_table := (callback_id_table b)(cbl_id cbl \<mapsto> cbl) \<rparr>))"

text \<open>The loop \<open>for (auto i : channels) callback_table[i].push_back(cbl)\<close>\<close>

fun push_channels ::
  "string list \<Rightarrow> 'p callback_listener \<Rightarrow> (string \<rightharpoonup> 'p callback_listener list)
     \<Rightarrow> (string \<rightharpoonup> 'p callback_listener list)" where
  "push_channels [] l t = t"
| "push_channels (i # rest) l t = push_channels rest l (table_push_back i l t)"

text \<open>\<open>register_listener(const std::list<std::string>& channels, cb_func cb)\<close>\<close>

definition register_listener_list ::
  "string list \<Rightarrow> 'p cb_func \<Rightarrow> 'p event_bus \<Rightarrow> 64 word \<times> 'p event_bus" where
  "register_listener_list chans f b =
     (let cbl = \<lparr> channels = chans, cb = f, cbl_id = next_cbl_id b \<rparr>
      in (cbl_id cbl,
          b\<lparr> next_cbl_id := next_cbl_id b + 1,
             callback_table := push_channels chans cbl (callback_table b),
             callback_id_table := (callback_id_table b)(cbl_id cbl \<mapsto> cbl) \<rparr>))"

text \<open>
  The inner loop of \<open>remove_listener\<close>: erase the first element whose id matches, then
  \<open>break\<close>.
\<close>

fun erase_first :: "64 word \<Rightarrow> 'p callback_listener list \<Rightarrow> 'p callback_listener list" where
  "erase_first i [] = []"
| "erase_first i (l # ls) = (if cbl_id l = i then ls else l # erase_first i ls)"

text \<open>
  One round of the outer loop of \<open>remove_listener\<close>. \<open>auto cb_list = callback_table[c]\<close>
  declares a vector, not a reference: \<open>cb_list\<close> is a copy of the table's vector, the
  erase works on the copy, and the copy goes out of scope at the end of the round. The
  round returns the table (where \<open>operator[]\<close> may have inserted the key) and, second, the
  value the local \<open>cb_list\<close> ends with.
\<close>

definition remove_round ::
  "64 word \<Rightarrow> string \<Rightarrow> (string \<rightharpoonup> 'p callback_listener list)
     \<Rightarrow> (string \<rightharpoonup> 'p callback_listener list) \<times> 'p callback_listener list" where
  "remove_round i c t =
     (let t' = table_touch t c;
          cb_list = table_at t' c
      in (t', erase_first i cb_list))"

fun remove_rounds ::
  "64 word \<Rightarrow> string list \<Rightarrow> (string \<rightharpoonup> 'p callback_listener list)
     \<Rightarrow> (string \<rightharpoonup> 'p callback_listener list)" where
  "remove_rounds i [] t = t"
| "remove_rounds i (c # cs) t = remove_rounds i cs (fst (remove_round i c t))"

text \<open>\<open>event_bus::remove_listener\<close>\<close>

definition remove_listener :: "64 word \<Rightarrow> 'p event_bus \<Rightarrow> 'p event_bus" where
  "remove_listener i b =
     (case callback_id_table b i of
        None \<Rightarrow> b
      | Some cbl \<Rightarrow>
          b\<lparr> callback_table := remove_rounds i (channels cbl) (callback_table b),
             callback_id_table := (callback_id_table b)(i := None) \<rparr>)"

subsection \<open>Dispatch\<close>

text \<open>
  A range-for over a listener vector, \<open>for (const auto& cbl : ...) cbl->cb(e)\<close>. The
  result is the sequence of calls made, each the listener and the event it was given, and
  how the loop ended. There is no \<open>try\<close> in eventbus.cc: a call that throws ends the loop.
\<close>

type_synonym 'p invocation = "'p callback_listener \<times> 'p eventbus_event"

fun invoke_all ::
  "'p callback_listener list \<Rightarrow> 'p eventbus_event \<Rightarrow> 'p invocation list \<times> cb_result" where
  "invoke_all [] e = ([], Returned)"
| "invoke_all (l # ls) e =
     (case cb l e of
        Threw \<Rightarrow> ([(l, e)], Threw)
      | Returned \<Rightarrow> (let (tr, r) = invoke_all ls e in ((l, e) # tr, r)))"

text \<open>
  The body of the dispatcher for one popped event \<open>e\<close>: the two \<open>find\<close>s, the early
  \<open>continue\<close> when both miss, then the listeners of the event's channel and the listeners
  of \<open>"*"\<close>.
\<close>

definition deliver ::
  "(string \<rightharpoonup> 'p callback_listener list) \<Rightarrow> 'p eventbus_event
     \<Rightarrow> 'p invocation list \<times> cb_result" where
  "deliver t e =
     (let ch_listeners = t (get_event_id e);
          ch_all_listeners = t ''*''
      in if ch_listeners = None \<and> ch_all_listeners = None then ([], Returned)
         else
           (let (tr1, r1) = (case ch_listeners of None \<Rightarrow> ([], Returned)
                              | Some ls \<Rightarrow> invoke_all ls e)
            in case r1 of
                 Threw \<Rightarrow> (tr1, Threw)
               | Returned \<Rightarrow>
                   (let (tr2, r2) = (case ch_all_listeners of None \<Rightarrow> ([], Returned)
                                      | Some ls \<Rightarrow> invoke_all ls e)
                    in (tr1 @ tr2, r2))))"

text \<open>
  \<open>event_queue_dispatcher\<close>, run on the thread the constructor starts. \<open>halt\<close> stands for
  the three flags of the global registry (spindown, fatal condition, complete), which is
  not part of the sources at hand. The loop pops and delivers until the queue is empty,
  where it blocks for new events; an exception that leaves a handler leaves the loop and
  the thread function with it. The result is the calls made, how the loop stopped, and
  the bus with what is left of the queue.
\<close>

datatype dispatcher_stop = Waiting | Exited | Terminated

fun drain_queue ::
  "(string \<rightharpoonup> 'p callback_listener list) \<Rightarrow> 'p eventbus_event list
     \<Rightarrow> 'p invocation list \<times> dispatcher_stop \<times> 'p eventbus_event list" where
  "drain_queue t [] = ([], Waiting, [])"
| "drain_queue t (e # q) =
     (case deliver t e of
        (tr, Threw) \<Rightarrow> (tr, Terminated, q)
      | (tr, Returned) \<Rightarrow> (let (tr', s, q') = drain_queue t q in (tr @ tr', s, q')))"

definition event_queue_dispatcher ::
  "bool \<Rightarrow> 'p event_bus \<Rightarrow> 'p invocation list \<times> dispatcher_stop \<times> 'p event_bus" where
  "event_queue_dispatcher halt b =
     (if shutdown b \<or> halt then ([], Exited, b)
      else (let (tr, s, q) = drain_queue (callback_table b) (event_queue b)
            in (tr, s, b\<lparr> event_queue := q \<rparr>)))"

subsection \<open>Runs of the bus\<close>

text \<open>
  The calls a client can make, and a run of them from a given bus. A run returns the ids
  the two \<open>register_listener\<close> overloads handed out, in call order, and the final bus.
\<close>

datatype 'p bus_op =
    Register string "'p cb_func"
  | RegisterList "string list" "'p cb_func"
  | Remove "64 word"
  | Publish "'p eventbus_event"

fun run_ops :: "'p bus_op list \<Rightarrow> 'p event_bus \<Rightarrow> 64 word list \<times> 'p event_bus" where
  "run_ops [] b = ([], b)"
| "run_ops (Register c f # ops) b =
     (let (i, b') = register_listener c f b; (ids, b'') = run_ops ops b' in (i # ids, b''))"
| "run_ops (RegisterList cs f # ops) b =
     (let (i, b') = register_listener_list cs f b; (ids, b'') = run_ops ops b'
      in (i # ids, b''))"
| "run_ops (Remove i # ops) b = run_ops ops (remove_listener i b)"
| "run_ops (Publish e # ops) b = run_ops ops (publish e b)"

text \<open>The listeners a run creates, in call order, when the first id to hand out is \<open>n\<close>.\<close>

fun registered :: "'p bus_op list \<Rightarrow> 64 word \<Rightarrow> 'p callback_listener list" where
  "registered [] n = []"
| "registered (Register c f # ops) n =
     \<lparr> channels = [c], cb = f, cbl_id = n \<rparr> # registered ops (n + 1)"
| "registered (RegisterList cs f # ops) n =
     \<lparr> channels = cs, cb = f, cbl_id = n \<rparr> # registered ops (n + 1)"
| "registered (Remove i # ops) n = registered ops n"
| "registered (Publish e # ops) n = registered ops n"


text \<open>The entries a list of listeners contributes to channel \<open>c\<close>: one per mention of \<open>c\<close>.\<close>

definition entries :: "'p callback_listener list \<Rightarrow> string \<Rightarrow> 'p callback_listener list" where
  "entries ls c = concat (map (\<lambda>l. map (\<lambda>_. l) (filter (\<lambda>x. x = c) (channels l))) ls)"


section \<open>Probe coordinator (DST_DataSourceProbe)\<close>

text \<open>
  Modelled from the spec: a driver descriptor (builder). \<open>SharedDataSourceBuilder\<close> is
  used by datasourcetracker.h but declared elsewhere. The spec's descriptor holds the
  driver name, whether the driver can probe natively and the native probe function
  (\<open>native_probe\<close>, \<open>None\<close> for a driver that must be probed over IPC), and a factory
  for source instances; of an instance the tracker sees how opening a definition at a
  given time ends (\<open>open_result\<close>: success flag and message).
\<close>

record builder =
  driver_name :: string
  native_probe :: "(string \<Rightarrow> bool) option"
  open_result :: "string \<Rightarrow> nat \<Rightarrow> bool \<times> string"

text \<open>
  Modelled from the spec: a probe attempt, "transaction id, driver descriptor, optional
  child process, outcome"; no class of the sources at hand declares it.
\<close>

datatype attempt_outcome = Pending | Accepted | Rejected | Cancelled | Timeout

record probe_attempt =
  transaction :: "32 word"
  driver :: builder
  child_alive :: bool
  outcome :: attempt_outcome

text \<open>
  Modelled from the spec: what the completion callback \<open>probe_cb\<close> is called with, the
  winning driver or the reason there is none. The declaration passes a builder pointer;
  the outcomes are the spec's.
\<close>

datatype probe_result = Winner builder | No_driver | Probe_timeout | Probe_cancelled

text \<open>
  Modelled from the spec: the members of \<open>DST_DataSourceProbe\<close> as datasourcetracker.h
  declares them (\<open>proto_vec\<close>, \<open>probe_vec\<close>, \<open>source_builder\<close>, \<open>transaction_id\<close>,
  \<open>definition\<close>, \<open>cancelled\<close>, \<open>cancel_timer\<close>); the member functions have no body in
  the sources at hand and follow section 4.3 of the spec. \<open>probe_vec\<close> holds the probe
  attempts, \<open>cancelled\<close> is set once the coordinator has resolved, \<open>cancel_timer\<close> says
  whether the deadline timer is running, and \<open>probe_cb_calls\<close> records every call of the
  completion callback.
\<close>

record probe_coordinator =
  probe_definition :: string
  probe_proto_vec :: "builder list"
  probe_vec :: "probe_attempt list"
  source_builder :: "builder option"
  transaction_id :: "32 word"
  cancelled :: bool
  cancel_timer :: bool
  probe_cb_calls :: "probe_result list"

text \<open>Modelled from the spec: the constructor, a coordinator that has not started.\<close>

definition new_probe :: "string \<Rightarrow> builder list \<Rightarrow> probe_coordinator" where
  "new_probe defn protos =
     \<lparr> probe_definition = defn, probe_proto_vec = protos, probe_vec = [],
       source_builder = None, transaction_id = 0, cancelled = False,
       cancel_timer = False, probe_cb_calls = [] \<rparr>"

text \<open>
  Modelled from the spec: resolving the coordinator. The completion is one-shot ("the
  first delivered outcome wins, later ones are discarded"): on a resolved coordinator
  nothing happens; otherwise every attempt still pending gets the outcome \<open>how\<close>, every
  child is terminated, the timer is stopped and the completion callback is called.
\<close>

definition close_attempt :: "attempt_outcome \<Rightarrow> probe_attempt \<Rightarrow> probe_attempt" where
  "close_attempt how a =
     a\<lparr> child_alive := False,
        outcome := (if outcome a = Pending then how else outcome a) \<rparr>"

definition resolve :: "attempt_outcome \<Rightarrow> probe_result \<Rightarrow> probe_coordinator \<Rightarrow> probe_coordinator" where
  "resolve how r c =
     (if cancelled c then c
      else c\<lparr> probe_vec := map (close_attempt how) (probe_vec c),
              cancelled := True,
              cancel_timer := False,
              probe_cb_calls := probe_cb_calls c @ [r] \<rparr>)"

text \<open>
  Modelled from the spec: \<open>probe_sources\<close>, steps 1 to 4. Native probes run in
  registration order and the first to accept wins at once; otherwise every driver that
  needs IPC gets a transaction id of its own and a child, its attempt is pending, and the
  deadline timer starts.
\<close>

fun native_winner :: "string \<Rightarrow> builder list \<Rightarrow> builder option" where
  "native_winner defn [] = None"
| "native_winner defn (d # ds) =
     (case native_probe d of
        Some probe \<Rightarrow> (if probe defn then Some d else native_winner defn ds)
      | None \<Rightarrow> native_winner defn ds)"

fun spawn_probes :: "32 word \<Rightarrow> builder list \<Rightarrow> probe_attempt list \<times> 32 word" where
  "spawn_probes tid [] = ([], tid)"
| "spawn_probes tid (d # ds) =
     (case native_probe d of
        Some probe \<Rightarrow> spawn_probes tid ds
      | None \<Rightarrow>
          (let (as, tid') = spawn_probes (tid + 1) ds
           in (\<lparr> transaction = tid, driver = d, child_alive = True, outcome = Pending \<rparr> # as,
               tid')))"

definition probe_sources :: "probe_coordinator \<Rightarrow> probe_coordinator" where
  "probe_sources c =
     (case native_winner (probe_definition c) (probe_proto_vec c) of
        Some d \<Rightarrow> resolve Cancelled (Winner d) (c\<lparr> source_builder := Some d \<rparr>)
      | None \<Rightarrow>
          (let (as, tid) = spawn_probes (transaction_id c) (probe_proto_vec c)
           in c\<lparr> probe_vec := as, transaction_id := tid, cancel_timer := True \<rparr>))"

text \<open>
  Modelled from the spec: \<open>complete_probe(in_success, in_transaction)\<close>, steps 5 and 6. A
  call on a resolved coordinator is dropped. An affirmative reply makes its attempt the
  winner and resolves; a negative reply marks the attempt rejected, and when every attempt
  is rejected the coordinator resolves with "no driver".
\<close>

fun mark_attempt :: "32 word \<Rightarrow> attempt_outcome \<Rightarrow> probe_attempt list \<Rightarrow> probe_attempt list" where
  "mark_attempt tid how [] = []"
| "mark_attempt tid how (a # as) =
     (if transaction a = tid then a\<lparr> outcome := how \<rparr> # as
      else a # mark_attempt tid how as)"

definition complete_probe :: "bool \<Rightarrow> 32 word \<Rightarrow> probe_coordinator \<Rightarrow> probe_coordinator" where
  "complete_probe in_success in_transaction c =
     (if cancelled c then c
      else
        (case find (\<lambda>a. transaction a = in_transaction) (probe_vec c) of
           None \<Rightarrow> c
         | Some a \<Rightarrow>
             (if in_success
              then resolve Cancelled (Winner (driver a))
                     (c\<lparr> probe_vec := mark_attempt in_transaction Accepted (probe_vec c),
                        source_builder := Some (driver a) \<rparr>)
              else
                (let c' = c\<lparr> probe_vec := mark_attempt in_transaction Rejected (probe_vec c) \<rparr>
                 in if list_all (\<lambda>a. outcome a = Rejected) (probe_vec c')
                    then resolve Cancelled No_driver c'
                    else c'))))"

text \<open>
  Modelled from the spec: expiry of the deadline timer (step 7) and \<open>cancel()\<close>, which
  "behaves as timeout but with reason cancelled".
\<close>

definition timer_expired :: "probe_coordinator \<Rightarrow> probe_coordinator" where
  "timer_expired c = resolve Timeout Probe_timeout c"

definition cancel :: "probe_coordinator \<Rightarrow> probe_coordinator" where
  "cancel c = resolve Cancelled Probe_cancelled c"

text \<open>
  Modelled from the spec: what can reach a coordinator after \<open>probe_sources\<close>, in the
  order the coordinator's lock admits it ("all state transitions of the coordinator are
  serialized by a coordinator-local lock"): probe replies, the timer, cancellations.
\<close>

datatype probe_event = Reply bool "32 word" | Timer_fired | Cancel_called

fun probe_step :: "probe_event \<Rightarrow> probe_coordinator \<Rightarrow> probe_coordinator" where
  "probe_step (Reply ok tid) c = complete_probe ok tid c"
| "probe_step Timer_fired c = timer_expired c"
| "probe_step Cancel_called c = cancel c"

fun run_probe :: "probe_event list \<Rightarrow> probe_coordinator \<Rightarrow> probe_coordinator" where
  "run_probe [] c = c"
| "run_probe (ev # evs) c = run_probe evs (probe_step ev c)"

text \<open>
  The invariant of a coordinator: the completion callback has been called once when the
  coordinator has resolved, and not at all before.
\<close>

definition once :: "probe_coordinator \<Rightarrow> bool" where
  "once c = (length (probe_cb_calls c) = (if cancelled c then 1 else 0))"

section \<open>Source supervisor (Datasourcetracker)\<close>

text \<open>
  Modelled from the spec: the states of a source; the class \<open>KisDataSource\<close> of
  kis_datasource.h has no state member.
\<close>

datatype source_state = Probing | Opening | Running | Error | Closed

text \<open>
  Modelled from the spec: a source, with the fields of the spec's data model that the
  supervisor's open and retry paths use. \<open>src_proto\<close> is the driver that built it.
\<close>

record datasource =
  source_id :: int
  source_definition :: string
  src_proto :: builder
  source_state :: source_state
  last_error :: string
  retry_delay :: nat
  retry_due :: nat




definition retry_cap :: nat where
  "retry_cap = 300"



text \<open>
  Modelled from the spec: the periodic retry (\<open>timetracker_event\<close>). Every source in
  error whose retry is due is opened again with its stored definition: on success it runs
  and leaves the error vector, on failure it stays and its next retry backs off (doubling,
  capped).
\<close>

definition retry_source :: "nat \<Rightarrow> datasource \<Rightarrow> datasource" where
  "retry_source now s =
     (if source_state s = Error \<and> retry_due s \<le> now
      then
        (let (ok, msg) = open_result (src_proto s) (source_definition s) now
         in if ok then s\<lparr> source_state := Running, last_error := [] \<rparr>
            else s\<lparr> last_error := msg,
                    retry_delay := min retry_cap (2 * retry_delay s),
                    retry_due := now + min retry_cap (2 * retry_delay s) \<rparr>)
      else s)"






section \<open>Frame codec\<close>

type_synonym byte = "8 word"

text \<open>
  \<open>KisDataSource_CapKeyedObject\<close> of kis_datasource.h: a key, a size and the object
  bytes (\<open>string key; uint32_t size; uint8_t *object\<close>).
\<close>

record keyed_object =
  key :: string
  kv_size :: "32 word"
  object :: "byte list"

text \<open>
  Modelled from the spec: the codec itself (simple_datasource_proto.h and the code that
  reads and writes frames) is not part of the sources at hand. The definitions below
  follow the wire layout of section 6 of the spec; the magic number and the checksum
  function are "implementation-fixed" there and are parameters here.
\<close>

definition byte_of_char :: "char \<Rightarrow> byte" where
  "byte_of_char c = of_nat (of_char c)"

definition char_of_byte :: "byte \<Rightarrow> char" where
  "char_of_byte b = char_of (unat b)"

definition be16 :: "nat \<Rightarrow> byte list" where
  "be16 n = [of_nat (n div 256), of_nat n]"

definition be32 :: "nat \<Rightarrow> byte list" where
  "be32 n = [of_nat (n div 16777216), of_nat (n div 65536), of_nat (n div 256), of_nat n]"

fun rd16 :: "byte list \<Rightarrow> nat" where
  "rd16 (a # b # _) = unat a * 256 + unat b"
| "rd16 _ = 0"

fun rd32 :: "byte list \<Rightarrow> nat" where
  "rd32 (a # b # c # d # _) = unat a * 16777216 + unat b * 65536 + unat c * 256 + unat d"
| "rd32 _ = 0"

text \<open>
  Modelled from the spec: one keyed object on the wire, \<open>key_len\<close>, \<open>key\<close>, \<open>obj_size\<close>,
  \<open>obj\<close>.
\<close>

definition emit_kv :: "keyed_object \<Rightarrow> byte list" where
  "emit_kv ob =
     be16 (length (key ob)) @ map byte_of_char (key ob)
       @ be32 (unat (kv_size ob)) @ take (unat (kv_size ob)) (object ob)"

text \<open>
  Modelled from the spec: \<open>emit(type, kv_pairs)\<close>, that is magic, \<open>type_len\<close>, \<open>type\<close>, \<open>nkv\<close>, \<open>payload_len\<close>, the payload,
  and the checksum over \<open>type\<close> .. \<open>payload\<close>.
\<close>

definition emit :: "32 word \<Rightarrow> (byte list \<Rightarrow> 32 word) \<Rightarrow> string \<Rightarrow> keyed_object list \<Rightarrow> byte list" where
  "emit magic crc ty kvs =
     (let payload = concat (map emit_kv kvs);
          covered = map byte_of_char ty @ be32 (length kvs) @ be32 (length payload) @ payload
      in be32 (unat magic) @ be16 (length ty) @ covered @ be32 (unat (crc covered)))"

text \<open>
  Modelled from the spec: the valid inputs, those \<open>emit\<close> can represent: every length fits its length field, and the size of a
  keyed object is the number of its object bytes.
\<close>

definition valid_kv :: "keyed_object \<Rightarrow> bool" where
  "valid_kv ob = (length (key ob) < 65536 \<and> unat (kv_size ob) = length (object ob))"

definition valid_frame :: "string \<Rightarrow> keyed_object list \<Rightarrow> bool" where
  "valid_frame ty kvs =
     (length ty < 65536 \<and> length kvs < 4294967296
      \<and> length (concat (map emit_kv kvs)) < 4294967296 \<and> list_all valid_kv kvs)"

text \<open>
  Modelled from the spec: reading one keyed object, and \<open>n\<close> of them, from the payload
  of a frame.
\<close>

definition parse_kv :: "byte list \<Rightarrow> (keyed_object \<times> byte list) option" where
  "parse_kv bs =
     (if length bs < 2 then None
      else
        (let key_len = rd16 bs; bs1 = drop 2 bs
         in if length bs1 < key_len + 4 then None
            else
              (let k = take key_len bs1; bs2 = drop key_len bs1;
                   obj_size = rd32 bs2; bs3 = drop 4 bs2
               in if length bs3 < obj_size then None
                  else Some (\<lparr> key = map char_of_byte k, kv_size = of_nat obj_size,
                               object = take obj_size bs3 \<rparr>,
                             drop obj_size bs3))))"

fun parse_kvs :: "nat \<Rightarrow> byte list \<Rightarrow> (keyed_object list \<times> byte list) option" where
  "parse_kvs 0 bs = Some ([], bs)"
| "parse_kvs (Suc n) bs =
     (case parse_kv bs of
        None \<Rightarrow> None
      | Some (ob, bs') \<Rightarrow>
          (case parse_kvs n bs' of
             None \<Rightarrow> None
           | Some (obs, rest) \<Rightarrow> Some (ob # obs, rest)))"

text \<open>
  Modelled from the spec: \<open>parse\<close> of one frame at the head of a byte stream: \<open>Incomplete\<close> after a short read
  (the bytes stay in the ring buffer until the frame is complete), \<open>Malformed\<close> for a
  wrong magic, a wrong checksum or a payload that is not \<open>nkv\<close> keyed objects, otherwise
  the frame and the bytes behind it.
\<close>

datatype 'a parsed = Incomplete | Malformed | Parsed 'a "byte list"

definition parse_frame ::
  "32 word \<Rightarrow> (byte list \<Rightarrow> 32 word) \<Rightarrow> byte list \<Rightarrow> (string \<times> keyed_object list) parsed" where
  "parse_frame magic crc bs =
     (if length bs < 6 then Incomplete
      else if rd32 bs \<noteq> unat magic then Malformed
      else
        (let type_len = rd16 (drop 4 bs); bs1 = drop 6 bs
         in if length bs1 < type_len + 8 then Incomplete
            else
              (let ty = take type_len bs1; bs2 = drop type_len bs1;
                   nkv = rd32 bs2; payload_len = rd32 (drop 4 bs2); bs3 = drop 8 bs2
               in if length bs3 < payload_len + 4 then Incomplete
                  else
                    (let payload = take payload_len bs3; bs4 = drop payload_len bs3
                     in if rd32 bs4 \<noteq> unat (crc (ty @ take 8 bs2 @ payload)) then Malformed
                        else
                          (case parse_kvs nkv payload of
                             Some (kvs, []) \<Rightarrow> Parsed (map char_of_byte ty, kvs) (drop 4 bs4)
                           | _ \<Rightarrow> Malformed)))))"

section \<open>Properties of the event bus\<close>

subsection \<open>The channel index along a run\<close>

lemma table_at_push_back:
  "table_at (table_push_back c l t) c' = (if c' = c then table_at t c @ [l] else table_at t c')"
  by (simp add: table_at_def table_push_back_def)

lemma table_at_push_channels:
  "table_at (push_channels cs l t) c = table_at t c @ map (\<lambda>_. l) (filter (\<lambda>x. x = c) cs)"
  by (induction cs arbitrary: t) (auto simp: table_at_push_back)

lemma table_at_touch: "table_at (table_touch t c) c' = table_at t c'"
  by (simp add: table_at_def table_touch_def split: option.splits)

lemma table_at_remove_rounds: "table_at (remove_rounds i cs t) c = table_at t c"
  by (induction cs arbitrary: t) (simp_all add: remove_round_def Let_def table_at_touch)

lemma table_at_register_listener:
  "table_at (callback_table (snd (register_listener c f b))) c' =
     table_at (callback_table b) c' @ entries [\<lparr> channels = [c], cb = f, cbl_id = next_cbl_id b \<rparr>] c'"
  by (simp add: register_listener_def Let_def table_at_push_back entries_def)

lemma table_at_register_listener_list:
  "table_at (callback_table (snd (register_listener_list cs f b))) c' =
     table_at (callback_table b) c' @ entries [\<lparr> channels = cs, cb = f, cbl_id = next_cbl_id b \<rparr>] c'"
  by (simp add: register_listener_list_def Let_def table_at_push_channels entries_def)

lemma table_at_remove_listener:
  "table_at (callback_table (remove_listener i b)) c = table_at (callback_table b) c"
  by (simp add: remove_listener_def table_at_remove_rounds split: option.splits)

lemma entries_Cons: "entries (l # ls) c = entries [l] c @ entries ls c"
  by (simp add: entries_def)

lemma next_register_listener [simp]:
  "next_cbl_id (snd (register_listener c f b)) = next_cbl_id b + 1"
  "fst (register_listener c f b) = next_cbl_id b"
  by (simp_all add: register_listener_def Let_def)

lemma next_register_listener_list [simp]:
  "next_cbl_id (snd (register_listener_list cs f b)) = next_cbl_id b + 1"
  "fst (register_listener_list cs f b) = next_cbl_id b"
  by (simp_all add: register_listener_list_def Let_def)

lemma next_remove_listener [simp]: "next_cbl_id (remove_listener i b) = next_cbl_id b"
  by (simp add: remove_listener_def split: option.splits)

lemma next_publish [simp]: "next_cbl_id (publish e b) = next_cbl_id b"
  "callback_table (publish e b) = callback_table b"
  by (simp_all add: publish_def)

lemma table_at_run_ops:
  "table_at (callback_table (snd (run_ops ops b))) c =
     table_at (callback_table b) c @ entries (registered ops (next_cbl_id b)) c"
proof (induction ops arbitrary: b)
  case Nil
  show ?case by (simp add: entries_def)
next
  case (Cons a ops)
  show ?case
  proof (cases a)
    case (Register ch f)
    then show ?thesis
      using Cons [of "snd (register_listener ch f b)"]
      by (simp add: split_beta Let_def table_at_register_listener entries_Cons [of _ "registered _ _"])
  next
    case (RegisterList cs f)
    then show ?thesis
      using Cons [of "snd (register_listener_list cs f b)"]
      by (simp add: split_beta Let_def table_at_register_listener_list entries_Cons [of _ "registered _ _"])
  next
    case (Remove i)
    then show ?thesis using Cons [of "remove_listener i b"]
      by (simp add: table_at_remove_listener)
  next
    case (Publish e)
    then show ?thesis using Cons [of "publish e b"] by simp
  qed
qed

lemma ids_run_ops:
  "fst (run_ops ops b) = map cbl_id (registered ops (next_cbl_id b))"
proof (induction ops arbitrary: b)
  case Nil
  show ?case by simp
next
  case (Cons a ops)
  show ?case
    by (cases a) (simp_all add: split_beta Let_def Cons)
qed

lemma ids_registered:
  "map cbl_id (registered ops n) = map (\<lambda>k. n + of_nat k) [0..<length (registered ops n)]"
proof (induction ops arbitrary: n)
  case Nil
  show ?case by simp
next
  case (Cons a ops)
  have shift: "\<And>m. map (\<lambda>k. n + 1 + of_nat k) [0..<m] = map (\<lambda>k. n + of_nat k) [Suc 0..<Suc m]"
    by (simp add: map_Suc_upt [symmetric] del: upt_Suc add: ac_simps)
  show ?case
    by (cases a) (simp_all add: Cons shift upt_conv_Cons del: upt_Suc)
qed

subsection \<open>Subscription ids\<close>

lemma unat_id64: "Suc k < 2 ^ 64 \<Longrightarrow> unat (1 + of_nat k :: 64 word) = Suc k"
proof -
  assume a: "Suc k < 2 ^ 64"
  have "(1 + of_nat k :: 64 word) = of_nat (Suc k)" by simp
  then show ?thesis using a by (simp only: unat_of_nat) simp
qed

lemma ids_fresh_unat:
  assumes "length (registered ops 1) < 2 ^ 64"
  shows "map unat (map cbl_id (registered ops (1 :: 64 word))) = [1..<Suc (length (registered ops 1))]"
proof -
  let ?n = "length (registered ops (1 :: 64 word))"
  have "map unat (map cbl_id (registered ops (1 :: 64 word))) = map (\<lambda>k. unat (1 + of_nat k :: 64 word)) [0..<?n]"
    by (subst ids_registered) (simp add: comp_def)
  also have "\<dots> = map Suc [0..<?n]"
  proof (rule map_cong [OF refl])
    fix k assume "k \<in> set [0..<?n]"
    then have "Suc k < 2 ^ 64" using assms by simp
    then show "unat (1 + of_nat k :: 64 word) = Suc k" by (rule unat_id64)
  qed
  also have "\<dots> = [1..<Suc ?n]"
    by (simp only: map_Suc_upt One_nat_def)
  finally show ?thesis .
qed

lemma ids_props_of_unat:
  assumes u: "map unat (ids :: 64 word list) = [1..<Suc n]"
  shows "sorted_wrt (<) ids" and "distinct ids" and "\<forall>i \<in> set ids. 1 \<le> i"
proof -
  have "sorted_wrt (<) (map unat ids)" by (simp only: u sorted_wrt_upt)
  then show "sorted_wrt (<) ids" by (simp only: sorted_wrt_map word_less_nat_alt [symmetric])
  have "distinct (map unat ids)" by (simp only: u distinct_upt)
  then show "distinct ids" by (simp only: distinct_map)
  show "\<forall>i \<in> set ids. 1 \<le> i"
  proof
    fix i assume "i \<in> set ids"
    then have "unat i \<in> set (map unat ids)" by (simp only: set_map) (rule imageI)
    then have "unat i \<in> set [1..<Suc n]" by (simp only: u)
    then have "1 \<le> unat i" by (simp only: set_upt atLeastLessThan_iff)
    then show "1 \<le> i" by (simp only: word_le_nat_alt unat_1 One_nat_def)
  qed
qed

text \<open>
  C4. Every subscription id handed out by either \<open>register_listener\<close> overload is at
  least 1, differs from every other id handed out, and is larger than every id handed out
  before it: the ids of a run from a new bus are 1, 2, 3, ... in call order, whatever
  removals and publications lie between. \<open>next_cbl_id\<close> is a 64-bit counter, so the
  statement covers the runs that hand out fewer than \<open>2 ^ 64\<close> ids.
\<close>

theorem register_ids_strictly_increasing:
  assumes "run_ops ops (new_event_bus fid) = (ids, b)" and "length ids < 2 ^ 64"
  shows "map unat ids = [1..<Suc (length ids)] \<and> sorted_wrt (<) ids \<and> distinct ids \<and> (\<forall>i \<in> set ids. 1 \<le> i)"
proof -
  have "next_cbl_id (new_event_bus fid :: 'a event_bus) = 1" by (simp add: new_event_bus_def)
  then have ids: "ids = map cbl_id (registered ops (1 :: 64 word))"
    using assms(1) ids_run_ops [of ops "new_event_bus fid"] by simp
  then have len: "length (registered ops (1 :: 64 word)) = length ids" by simp
  have u: "map unat ids = [1..<Suc (length ids)]"
    using ids_fresh_unat [of ops] assms(2) unfolding len ids [symmetric] .
  from u ids_props_of_unat [OF u] show ?thesis by blast
qed

theorem register_ids_strictly_increasing_witness:
  "fst (run_ops [Register ''x'' (\<lambda>e. Returned), RegisterList [''y'', ''*''] (\<lambda>e. Returned),
                 Remove 1, Register ''x'' (\<lambda>e. Threw)] (new_event_bus 0 :: unit event_bus)) = [1, 2, 3]
   \<and> length [1, 2, 3 :: 64 word] < 2 ^ 64
   \<and> map unat [1, 2, 3 :: 64 word] = [1..<Suc (length [1, 2, 3 :: 64 word])]
   \<and> sorted_wrt (<) [1, 2, 3 :: 64 word] \<and> distinct [1, 2, 3 :: 64 word]
   \<and> list_all (\<lambda>i. 1 \<le> i) [1, 2, 3 :: 64 word]"
proof -
  let ?r = "run_ops [Register ''x'' (\<lambda>e. Returned), RegisterList [''y'', ''*''] (\<lambda>e. Returned),
                 Remove 1, Register ''x'' (\<lambda>e. Threw)] (new_event_bus 0 :: unit event_bus)"
  have r: "fst ?r = [1, 2, 3]"
    by (simp add: new_event_bus_def register_listener_def register_listener_list_def
        remove_listener_def Let_def)
  have h1: "?r = ([1, 2, 3], snd ?r)" using r by (metis prod.collapse)
  have h2: "length [1, 2, 3 :: 64 word] < 2 ^ 64" by simp
  from register_ids_strictly_increasing [OF h1 h2] r h2 show ?thesis
    by (simp only: list_all_iff) blast
qed

subsection \<open>Delivery of one event\<close>

lemma invoke_all_append:
  "invoke_all (xs @ ys) e =
     (case invoke_all xs e of
        (tr, Threw) \<Rightarrow> (tr, Threw)
      | (tr, Returned) \<Rightarrow> (let (tr', r) = invoke_all ys e in (tr @ tr', r)))"
  by (induction xs) (auto split: cb_result.splits prod.splits)

lemma deliver_invoke_all:
  "deliver t e = invoke_all (table_at t (get_event_id e) @ table_at t ''*'') e"
  by (auto simp: deliver_def invoke_all_append table_at_def Let_def
      split: option.splits prod.splits cb_result.splits)


lemma invoke_all_threw:
  "\<forall>l \<in> set pre. cb l e = Returned \<Longrightarrow> cb x e = Threw \<Longrightarrow>
     invoke_all (pre @ x # post) e = (map (\<lambda>l. (l, e)) (pre @ [x]), Threw)"
  by (induction pre) auto

lemma invoke_all_subset: "(l', e') \<in> set (fst (invoke_all ls e)) \<Longrightarrow> l' \<in> set ls"
  by (induction ls) (fastforce split: cb_result.splits prod.splits)+

lemma set_entries: "set (entries ls c) = {l \<in> set ls. c \<in> set (channels l)}"
  by (auto simp: entries_def)

lemma new_bus_fields [simp]:
  "next_cbl_id (new_event_bus fid) = 1"
  "callback_table (new_event_bus fid) = Map.empty"
  "eventbus_event_id (new_event_bus fid) = fid"
  by (simp_all add: new_event_bus_def)

lemma table_at_empty [simp]: "table_at Map.empty c = []"
  by (simp add: table_at_def)

lemma table_at_new_run:
  assumes "run_ops ops (new_event_bus fid) = (ids, b)"
  shows "table_at (callback_table b) c = entries (registered ops 1) c"
  using table_at_run_ops [of ops "new_event_bus fid" c] assms by simp

lemma shutdown_step [simp]:
  "shutdown (snd (register_listener c f b)) = shutdown b"
  "shutdown (snd (register_listener_list cs f b)) = shutdown b"
  "shutdown (remove_listener i b) = shutdown b"
  "shutdown (publish e b) = shutdown b"
  by (simp_all add: register_listener_def register_listener_list_def remove_listener_def
      publish_def Let_def split: option.splits)


lemma queue_step [simp]:
  "event_queue (snd (register_listener c f b)) = event_queue b"
  "event_queue (snd (register_listener_list cs f b)) = event_queue b"
  "event_queue (remove_listener i b) = event_queue b"
  "event_queue (publish e b) = event_queue b @ [e]"
  by (simp_all add: register_listener_def register_listener_list_def remove_listener_def
      publish_def Let_def split: option.splits)



lemma new_bus_more [simp]:
  "shutdown (new_event_bus fid) = False"
  "event_queue (new_event_bus fid) = []"
  by (simp_all add: new_event_bus_def)




subsection \<open>Removal\<close>

text \<open>
  C1. \<open>remove_listener(id)\<close> should take the subscription out of every channel index and
  out of the id index, so that no later event reaches its handler. The code erases the
  entry from a copy of the channel's vector (\<open>auto cb_list = callback_table[c]\<close>), so
  the channel index keeps it: on a new bus, register a handler on \<open>"x"\<close> (id 1), remove
  id 1, publish an event on \<open>"x"\<close> and let the dispatcher run. The id index no longer
  knows id 1, and the handler is called all the same.
\<close>

theorem remove_listener_keeps_channel_entry:
  "(let (i, b1) = register_listener ''x'' (\<lambda>e. Returned) (new_event_bus 0 :: unit event_bus);
        b2 = remove_listener i b1;
        e = get_eventbus_event b2 ''x'';
        (tr, stop, b3) = event_queue_dispatcher False (publish e b2)
    in i = 1 \<and> callback_id_table b2 1 = None
       \<and> tr = [(\<lparr> channels = [''x''], cb = (\<lambda>e. Returned), cbl_id = 1 \<rparr>,
                 \<lparr> tracker_id = 0, event_type = ''x'', content = None \<rparr>)]
       \<and> stop = Waiting \<and> event_queue b3 = [])"
  by (simp add: register_listener_def remove_listener_def new_event_bus_def Let_def
      get_eventbus_event_def publish_def event_queue_dispatcher_def deliver_def
      get_event_id_def table_push_back_def table_at_def remove_round_def table_touch_def)

subsection \<open>How often a subscription is called\<close>







lemma distinct_ids_new_run:
  assumes "run_ops ops (new_event_bus fid) = (ids, b)" and "length ids < 2 ^ 64"
  shows "distinct (map cbl_id (registered ops 1))"
proof -
  have ids: "ids = map cbl_id (registered ops (1 :: 64 word))"
    using assms(1) ids_run_ops [of ops "new_event_bus fid"] by simp
  then have len: "length (registered ops (1 :: 64 word)) = length ids" by simp
  have u: "map unat ids = [1..<Suc (length ids)]"
    using ids_fresh_unat [of ops] assms(2) unfolding len ids [symmetric] .
  from ids_props_of_unat(2) [OF u] show ?thesis unfolding ids .
qed




subsection \<open>Handlers that throw\<close>

lemma drain_queue_threw:
  "deliver t e = (tr, Threw) \<Longrightarrow> drain_queue t (e # q) = (tr, Terminated, q)"
  by simp

text \<open>
  Two handlers on \<open>"x"\<close>, the first throws; two events on \<open>"x"\<close> are queued. The
  dispatcher calls the first handler with the first event and stops there: the second
  handler is not called and the second event stays in the queue.
\<close>

theorem throwing_handler_stops_dispatcher:
  "(let b = snd (run_ops
              [Register ''x'' (\<lambda>e. Threw), Register ''x'' (\<lambda>e. Returned),
               Publish \<lparr> tracker_id = 0, event_type = ''x'', content = Some 10 \<rparr>,
               Publish \<lparr> tracker_id = 0, event_type = ''x'', content = Some 20 \<rparr>]
              (new_event_bus 0 :: int event_bus));
        (tr, stop, b') = event_queue_dispatcher False b
    in map (\<lambda>call. (cbl_id (fst call), content (snd call))) tr = [(1, Some 10)]
       \<and> stop = Terminated
       \<and> event_queue b' = [\<lparr> tracker_id = 0, event_type = ''x'', content = Some 20 \<rparr>])"
  by (simp add: register_listener_def new_event_bus_def Let_def
      publish_def event_queue_dispatcher_def deliver_def
      get_event_id_def table_push_back_def table_at_def)

text \<open>
  C6, as the code has it. \<open>event_queue_dispatcher\<close> has no \<open>try\<close> around
  \<open>cbl->cb(e)\<close>. When the handler \<open>x\<close> is the first in delivery order to throw on the
  event at the head of the queue, the handlers before it and \<open>x\<close> are the only ones
  called, the handlers after it are not called, the exception leaves the dispatcher, and
  the events behind \<open>e\<close> stay undelivered in the queue.
\<close>

theorem handler_exception_leaves_dispatcher:
  assumes "\<not> shutdown b"
    and "event_queue b = e # q"
    and "table_at (callback_table b) (get_event_id e) @ table_at (callback_table b) ''*''
           = pre @ x # post"
    and "\<forall>l \<in> set pre. cb l e = Returned"
    and "cb x e = Threw"
  shows "event_queue_dispatcher False b
           = (map (\<lambda>l. (l, e)) (pre @ [x]), Terminated, b\<lparr> event_queue := q \<rparr>)"
proof -
  have "deliver (callback_table b) e = (map (\<lambda>l. (l, e)) (pre @ [x]), Threw)"
    unfolding deliver_invoke_all assms(3) using assms(4,5) by (rule invoke_all_threw)
  then have "drain_queue (callback_table b) (e # q) = (map (\<lambda>l. (l, e)) (pre @ [x]), Terminated, q)"
    by (rule drain_queue_threw)
  then show ?thesis
    using assms(1,2) by (simp add: event_queue_dispatcher_def)
qed

theorem handler_exception_leaves_dispatcher_witness:
  "event_queue_dispatcher False
     (snd (run_ops
        [Register ''x'' (\<lambda>e. Threw), Register ''x'' (\<lambda>e. Returned),
         Publish \<lparr> tracker_id = 0, event_type = ''x'', content = Some 10 \<rparr>,
         Publish \<lparr> tracker_id = 0, event_type = ''x'', content = Some 20 \<rparr>]
        (new_event_bus 0 :: int event_bus)))
   = ([(\<lparr> channels = [''x''], cb = (\<lambda>e. Threw), cbl_id = 1 \<rparr>,
        \<lparr> tracker_id = 0, event_type = ''x'', content = Some 10 \<rparr>)],
      Terminated,
      (snd (run_ops
        [Register ''x'' (\<lambda>e. Threw), Register ''x'' (\<lambda>e. Returned),
         Publish \<lparr> tracker_id = 0, event_type = ''x'', content = Some 10 \<rparr>,
         Publish \<lparr> tracker_id = 0, event_type = ''x'', content = Some 20 \<rparr>]
        (new_event_bus 0 :: int event_bus)))
      \<lparr> event_queue := [\<lparr> tracker_id = 0, event_type = ''x'', content = Some 20 \<rparr>] \<rparr>)"
proof -
  let ?b = "snd (run_ops
        [Register ''x'' (\<lambda>e. Threw), Register ''x'' (\<lambda>e. Returned),
         Publish \<lparr> tracker_id = 0, event_type = ''x'', content = Some 10 \<rparr>,
         Publish \<lparr> tracker_id = 0, event_type = ''x'', content = Some 20 \<rparr>]
        (new_event_bus 0 :: int event_bus))"
  let ?e = "\<lparr> tracker_id = 0, event_type = ''x'', content = Some (10 :: int) \<rparr>"
  let ?x = "\<lparr> channels = [''x''], cb = (\<lambda>e :: int eventbus_event. Threw), cbl_id = 1 \<rparr>"
  let ?y = "\<lparr> channels = [''x''], cb = (\<lambda>e :: int eventbus_event. Returned), cbl_id = 2 \<rparr>"
  have h1: "\<not> shutdown ?b"
    by (simp add: register_listener_def new_event_bus_def Let_def publish_def)
  have h2: "event_queue ?b = ?e # [\<lparr> tracker_id = 0, event_type = ''x'', content = Some 20 \<rparr>]"
    by (simp add: register_listener_def new_event_bus_def Let_def publish_def)
  have h3: "table_at (callback_table ?b) (get_event_id ?e) @ table_at (callback_table ?b) ''*''
              = [] @ ?x # [?y]"
    by (simp add: register_listener_def new_event_bus_def Let_def publish_def
        get_event_id_def table_push_back_def table_at_def)
  have h4: "\<forall>l \<in> set []. cb l ?e = Returned" by simp
  have h5: "cb ?x ?e = Threw" by simp
  show ?thesis
    using handler_exception_leaves_dispatcher [OF h1 h2 h3 h4 h5] by simp
qed

subsection \<open>Event ids\<close>

lemma event_id_register [simp]:
  "eventbus_event_id (snd (register_listener c f b)) = eventbus_event_id b"
  "eventbus_event_id (snd (register_listener_list cs f b)) = eventbus_event_id b"
  "eventbus_event_id (remove_listener i b) = eventbus_event_id b"
  "eventbus_event_id (publish e b) = eventbus_event_id b"
  by (simp_all add: register_listener_def register_listener_list_def remove_listener_def
      publish_def Let_def split: option.splits)

lemma event_id_run_ops: "eventbus_event_id (snd (run_ops ops b)) = eventbus_event_id b"
proof (induction ops arbitrary: b)
  case Nil
  show ?case by simp
next
  case (Cons a ops)
  show ?case by (cases a) (simp_all add: split_beta Cons)
qed

text \<open>
  Events made for two different type names carry the same integer id.
\<close>

theorem distinct_types_share_event_id:
  "''a'' \<noteq> ''b'' \<and>
   tracker_id (get_eventbus_event (new_event_bus 7 :: unit event_bus) ''a'')
     = tracker_id (get_eventbus_event (new_event_bus 7 :: unit event_bus) ''b'')"
  by (simp add: get_eventbus_event_def new_event_bus_def)

text \<open>
  C5, as the code has it. \<open>get_eventbus_event(type)\<close> returns a new event that carries
  the bus's one field id, the integer the constructor fetched for the fixed name
  \<open>"kismet.eventbus.event"\<close>, whatever the type name and whatever calls the bus has seen
  since; the type name itself is the event's channel key. Two calls with the same type
  name give the same integer and the same key; two calls with different type names give
  the same integer and different keys.
\<close>

theorem event_carries_bus_field_id:
  assumes "run_ops ops (new_event_bus fid) = (ids, b)"
  shows "tracker_id (get_eventbus_event b ty) = fid
         \<and> get_event_id (get_eventbus_event b ty) = ty
         \<and> content (get_eventbus_event b ty) = None"
proof -
  have "eventbus_event_id b = fid"
    using event_id_run_ops [of ops "new_event_bus fid"] assms by simp
  then show ?thesis by (simp add: get_eventbus_event_def get_event_id_def)
qed

theorem event_carries_bus_field_id_witness:
  "tracker_id (get_eventbus_event
       (snd (run_ops [Register ''a'' (\<lambda>e. Returned)] (new_event_bus 7 :: unit event_bus))) ''a'') = 7
   \<and> tracker_id (get_eventbus_event
       (snd (run_ops [Register ''a'' (\<lambda>e. Returned)] (new_event_bus 7 :: unit event_bus))) ''b'') = 7
   \<and> get_event_id (get_eventbus_event
       (snd (run_ops [Register ''a'' (\<lambda>e. Returned)] (new_event_bus 7 :: unit event_bus))) ''b'') = ''b''"
proof -
  let ?r = "run_ops [Register ''a'' (\<lambda>e. Returned)] (new_event_bus 7 :: unit event_bus)"
  have h: "?r = (fst ?r, snd ?r)" by simp
  from event_carries_bus_field_id [OF h, of "''a''"]
       event_carries_bus_field_id [OF h, of "''b''"]
  show ?thesis by blast
qed

subsection \<open>Registration with no channels\<close>

lemma run_ops_append:
  "run_ops (xs @ ys) b =
     (fst (run_ops xs b) @ fst (run_ops ys (snd (run_ops xs b))),
      snd (run_ops ys (snd (run_ops xs b))))"
proof (induction xs arbitrary: b)
  case Nil
  show ?case by simp
next
  case (Cons a xs)
  show ?case by (cases a) (simp_all add: split_beta Cons)
qed

lemma next_cbl_id_run_ops:
  "next_cbl_id (snd (run_ops ops b)) = next_cbl_id b + of_nat (length (registered ops (next_cbl_id b)))"
proof (induction ops arbitrary: b)
  case Nil
  show ?case by simp
next
  case (Cons a ops)
  show ?case by (cases a) (simp_all add: split_beta Cons)
qed

lemma registered_append:
  "registered (xs @ ys) n = registered xs n @ registered ys (n + of_nat (length (registered xs n)))"
proof (induction xs arbitrary: n)
  case Nil
  show ?case by simp
next
  case (Cons a xs)
  show ?case by (cases a) (simp_all add: Cons ac_simps)
qed

lemma deliver_subset:
  assumes "call \<in> set (fst (deliver t e))"
  shows "fst call \<in> set (table_at t (get_event_id e)) \<union> set (table_at t ''*'')"
proof -
  obtain l' e' where call: "call = (l', e')" by (cases call)
  from assms have "(l', e') \<in> set (fst (invoke_all (table_at t (get_event_id e) @ table_at t ''*'') e))"
    by (simp only: deliver_invoke_all call)
  then have "l' \<in> set (table_at t (get_event_id e) @ table_at t ''*'')"
    by (rule invoke_all_subset)
  then show ?thesis by (simp add: call)
qed

lemma register_empty_step:
  "register_listener_list [] f b =
     (next_cbl_id b,
      b\<lparr> next_cbl_id := next_cbl_id b + 1,
         callback_id_table := (callback_id_table b)
            (next_cbl_id b \<mapsto> \<lparr> channels = [], cb = f, cbl_id = next_cbl_id b \<rparr>) \<rparr>)"
  by (simp add: register_listener_list_def Let_def)

text \<open>
  C10. On a bus reached by any run of calls, \<open>register_listener\<close> with an empty
  channel list hands out the next id, larger than every id before it and smaller than
  every id after it, and records the subscription in the id index. It adds nothing to the
  channel index, so whatever calls follow, no delivery of any event calls the
  subscription. \<open>remove_listener\<close> of the id takes it out of the id index again.
  (Runs of fewer than \<open>2 ^ 64\<close> registrations.)
\<close>

theorem register_empty_channel_list:
  assumes r0: "run_ops ops (new_event_bus fid) = (ids0, b0)"
    and r1: "register_listener_list [] f b0 = (i, b1)"
    and r2: "run_ops ops' b1 = (ids1, b2)"
    and n: "length ids0 + length ids1 + 1 < 2 ^ 64"
  shows "i = next_cbl_id b0 \<and> next_cbl_id b1 = i + 1
         \<and> sorted_wrt (<) (ids0 @ i # ids1) \<and> distinct (ids0 @ i # ids1)
         \<and> callback_id_table b1 i = Some \<lparr> channels = [], cb = f, cbl_id = i \<rparr>
         \<and> callback_table b1 = callback_table b0
         \<and> (\<forall>e. \<forall>call \<in> set (fst (deliver (callback_table b2) e)). cbl_id (fst call) \<noteq> i)
         \<and> callback_id_table (remove_listener i b1) i = None
         \<and> callback_table (remove_listener i b1) = callback_table b0"
proof -
  let ?all = "ops @ RegisterList [] f # ops'"
  let ?l0 = "\<lparr> channels = [], cb = f, cbl_id = i \<rparr>"
  have i: "i = next_cbl_id b0" and b1: "b1 = b0\<lparr> next_cbl_id := next_cbl_id b0 + 1,
         callback_id_table := (callback_id_table b0)(next_cbl_id b0 \<mapsto> \<lparr> channels = [], cb = f, cbl_id = next_cbl_id b0 \<rparr>) \<rparr>"
    using r1 unfolding register_empty_step by auto
  have whole: "run_ops ?all (new_event_bus fid) = (ids0 @ i # ids1, b2)"
    using r0 r1 r2 by (simp add: run_ops_append)
  have len: "length (ids0 @ i # ids1) < 2 ^ 64" using n by simp
  have ids: "ids0 @ i # ids1 = map cbl_id (registered ?all (1 :: 64 word))"
    using whole ids_run_ops [of ?all "new_event_bus fid"] by simp
  then have len': "length (registered ?all (1 :: 64 word)) = length (ids0 @ i # ids1)"
    by (metis length_map)
  have u: "map unat (ids0 @ i # ids1) = [1..<Suc (length (ids0 @ i # ids1))]"
    using ids_fresh_unat [of ?all] len unfolding len' ids [symmetric] .
  note props = ids_props_of_unat [OF u]
  have d: "distinct (map cbl_id (registered ?all 1))"
    using whole len by (rule distinct_ids_new_run)
  have i_eq: "i = 1 + of_nat (length (registered ops (1 :: 64 word)))"
    using next_cbl_id_run_ops [of ops "new_event_bus fid"] r0 i by simp
  have l0_in: "?l0 \<in> set (registered ?all 1)"
    by (simp add: registered_append i_eq)
  have never: "cbl_id (fst call) \<noteq> i" if "call \<in> set (fst (deliver (callback_table b2) e))" for e call
  proof
    assume eq: "cbl_id (fst call) = i"
    have "fst call \<in> set (table_at (callback_table b2) (get_event_id e)) \<union> set (table_at (callback_table b2) ''*'')"
      using that by (rule deliver_subset)
    then obtain c where "fst call \<in> set (entries (registered ?all 1) c)"
      unfolding table_at_new_run [OF whole] by blast
    then have mem: "fst call \<in> set (registered ?all 1)" and ch: "c \<in> set (channels (fst call))"
      by (simp_all add: set_entries)
    have "inj_on cbl_id (set (registered ?all 1))"
      using d by (simp add: distinct_map)
    moreover have "cbl_id (fst call) = cbl_id ?l0" using eq by simp
    ultimately have "fst call = ?l0"
      using mem l0_in by (rule inj_onD)
    then show False using ch by simp
  qed
  have id_tab: "callback_id_table b1 i = Some ?l0" by (simp add: b1 i)
  have rm1: "callback_id_table (remove_listener i b1) i = None"
    using id_tab by (simp add: remove_listener_def)
  have rm2: "callback_table (remove_listener i b1) = callback_table b0"
    using id_tab by (simp add: remove_listener_def b1)
  show ?thesis
    using i props(1,2) id_tab never rm1 rm2 by (simp add: b1)
qed

theorem register_empty_channel_list_witness:
  "fst (register_listener_list [] (\<lambda>e. Threw)
          (snd (run_ops [Register ''x'' (\<lambda>e. Returned)] (new_event_bus 0 :: unit event_bus)))) = 2
   \<and> sorted_wrt (<) ([1] @ 2 # [3 :: 64 word])
   \<and> callback_table (snd (register_listener_list [] (\<lambda>e. Threw)
          (snd (run_ops [Register ''x'' (\<lambda>e. Returned)] (new_event_bus 0 :: unit event_bus)))))
       = callback_table (snd (run_ops [Register ''x'' (\<lambda>e. Returned)] (new_event_bus 0 :: unit event_bus)))
   \<and> callback_id_table (remove_listener 2 (snd (register_listener_list [] (\<lambda>e. Threw)
          (snd (run_ops [Register ''x'' (\<lambda>e. Returned)] (new_event_bus 0 :: unit event_bus)))))) 2
       = None"
proof -
  let ?b0 = "snd (run_ops [Register ''x'' (\<lambda>e. Returned)] (new_event_bus 0 :: unit event_bus))"
  let ?r1 = "register_listener_list [] (\<lambda>e. Threw) ?b0"
  let ?r2 = "run_ops [Register ''*'' (\<lambda>e. Returned)] (snd ?r1)"
  have f0: "fst (run_ops [Register ''x'' (\<lambda>e. Returned)] (new_event_bus 0 :: unit event_bus)) = [1]"
    by (simp add: register_listener_def Let_def)
  have h0: "run_ops [Register ''x'' (\<lambda>e. Returned)] (new_event_bus 0 :: unit event_bus) = ([1], ?b0)"
    using f0 by (metis prod.collapse)
  have f1: "fst ?r1 = 2"
    by (simp add: register_listener_def register_listener_list_def Let_def)
  have h1: "?r1 = (2, snd ?r1)"
    using f1 by (metis prod.collapse)
  have f2: "fst ?r2 = [3]"
    by (simp add: register_listener_def register_listener_list_def Let_def)
  have h2: "?r2 = ([3], snd ?r2)"
    using f2 by (metis prod.collapse)
  have hn: "length [1 :: 64 word] + length [3 :: 64 word] + 1 < 2 ^ 64" by simp
  from register_empty_channel_list [OF h0 h1 h2 hn] f1 show ?thesis by blast
qed

section \<open>Properties of the probe coordinator\<close>

lemma resolve_cancelled [simp]: "cancelled (resolve how r c)"
  by (simp add: resolve_def)

lemma resolve_once: "once c \<Longrightarrow> once (resolve how r c)"
  by (simp add: resolve_def once_def)

lemma resolve_dropped: "cancelled c \<Longrightarrow> resolve how r c = c"
  by (simp add: resolve_def)

lemma once_new_probe: "once (new_probe defn protos)"
  by (simp add: once_def new_probe_def)

lemma once_probe_sources: "once c \<Longrightarrow> \<not> cancelled c \<Longrightarrow> once (probe_sources c)"
  by (auto simp: probe_sources_def once_def resolve_def split: option.splits prod.splits)

lemma once_complete_probe: "once c \<Longrightarrow> once (complete_probe ok tid c)"
  by (auto simp: complete_probe_def once_def resolve_def Let_def split: option.splits)

lemma once_probe_step: "once c \<Longrightarrow> once (probe_step ev c)"
  by (cases ev) (simp_all add: once_complete_probe timer_expired_def cancel_def resolve_once)

lemma once_run_probe: "once c \<Longrightarrow> once (run_probe evs c)"
  by (induction evs arbitrary: c) (simp_all add: once_probe_step)

lemma complete_probe_dropped: "cancelled c \<Longrightarrow> complete_probe ok tid c = c"
  by (simp add: complete_probe_def)

lemma probe_step_dropped: "cancelled c \<Longrightarrow> probe_step ev c = c"
  by (cases ev) (simp_all add: complete_probe_dropped timer_expired_def cancel_def resolve_dropped)

lemma run_probe_dropped: "cancelled c \<Longrightarrow> run_probe evs c = c"
  by (induction evs) (simp_all add: probe_step_dropped)

lemma run_probe_resolves:
  "Timer_fired \<in> set evs \<or> Cancel_called \<in> set evs \<Longrightarrow> cancelled (run_probe evs c)"
proof (induction evs arbitrary: c)
  case Nil
  then show ?case by simp
next
  case (Cons ev evs)
  show ?case
  proof (cases "ev = Timer_fired \<or> ev = Cancel_called")
    case True
    then have "cancelled (probe_step ev c)"
      by (auto simp: timer_expired_def cancel_def)
    then show ?thesis by (simp add: run_probe_dropped)
  next
    case False
    then have "Timer_fired \<in> set evs \<or> Cancel_called \<in> set evs"
      using Cons.prems by auto
    then show ?thesis using Cons.IH by simp
  qed
qed

text \<open>
  C7. The completion callback of a probe coordinator is called exactly once, however
  many probe replies, cancellations and timer expiries reach it: after \<open>probe_sources\<close>
  and any sequence of them the callback has been called once if the coordinator has
  resolved and not yet otherwise; a run in which the deadline timer fires or \<open>cancel\<close> is
  called has resolved, so its callback has been called exactly once; and on a resolved
  coordinator \<open>complete_probe\<close>, and every further reply, expiry or cancellation, is
  dropped and changes nothing.
\<close>

theorem probe_completion_exactly_once:
  "(let c = run_probe evs (probe_sources (new_probe defn protos))
    in length (probe_cb_calls c) = (if cancelled c then 1 else 0)
       \<and> (Timer_fired \<in> set evs \<or> Cancel_called \<in> set evs \<longrightarrow> length (probe_cb_calls c) = 1)
       \<and> (cancelled c \<longrightarrow>
            (\<forall>ok tid. complete_probe ok tid c = c) \<and> (\<forall>more. run_probe more c = c)))"
proof -
  let ?c = "run_probe evs (probe_sources (new_probe defn protos))"
  have "\<not> cancelled (new_probe defn protos)" by (simp add: new_probe_def)
  then have "once (probe_sources (new_probe defn protos))"
    using once_new_probe by (intro once_probe_sources)
  then have o: "once ?c" by (rule once_run_probe)
  then have a: "length (probe_cb_calls ?c) = (if cancelled ?c then 1 else 0)"
    by (simp only: once_def)
  have b: "length (probe_cb_calls ?c) = 1"
    if "Timer_fired \<in> set evs \<or> Cancel_called \<in> set evs"
    using run_probe_resolves [OF that] a by simp
  have c: "complete_probe ok tid ?c = ?c" if "cancelled ?c" for ok tid
    using that by (rule complete_probe_dropped)
  have d: "run_probe more ?c = ?c" if "cancelled ?c" for more
    using that by (rule run_probe_dropped)
  from a b c d show ?thesis unfolding Let_def by blast
qed

theorem probe_completion_exactly_once_witness:
  "length (probe_cb_calls (run_probe
      [Reply False 0, Reply True 1, Reply True 0, Timer_fired, Cancel_called]
      (probe_sources (new_probe ''wlan0''
        [\<lparr> driver_name = ''d1'', native_probe = Some (\<lambda>d. False), open_result = (\<lambda>d t. (True, [])) \<rparr>,
         \<lparr> driver_name = ''d2'', native_probe = None, open_result = (\<lambda>d t. (True, [])) \<rparr>,
         \<lparr> driver_name = ''d3'', native_probe = None, open_result = (\<lambda>d t. (True, [])) \<rparr>])))) = 1
   \<and> probe_cb_calls (run_probe
      [Reply False 0, Reply True 1, Reply True 0, Timer_fired, Cancel_called]
      (probe_sources (new_probe ''wlan0''
        [\<lparr> driver_name = ''d1'', native_probe = Some (\<lambda>d. False), open_result = (\<lambda>d t. (True, [])) \<rparr>,
         \<lparr> driver_name = ''d2'', native_probe = None, open_result = (\<lambda>d t. (True, [])) \<rparr>,
         \<lparr> driver_name = ''d3'', native_probe = None, open_result = (\<lambda>d t. (True, [])) \<rparr>])))
     = [Winner \<lparr> driver_name = ''d3'', native_probe = None, open_result = (\<lambda>d t. (True, [])) \<rparr>]"
proof -
  let ?evs = "[Reply False 0, Reply True 1, Reply True 0, Timer_fired, Cancel_called]"
  let ?protos = "[\<lparr> driver_name = ''d1'', native_probe = Some (\<lambda>d. False), open_result = (\<lambda>d t. (True, [])) \<rparr>,
         \<lparr> driver_name = ''d2'', native_probe = None, open_result = (\<lambda>d t. (True, [])) \<rparr>,
         \<lparr> driver_name = ''d3'', native_probe = None, open_result = (\<lambda>d t. (True, [])) \<rparr>]"
  have fired: "Timer_fired \<in> set ?evs \<or> Cancel_called \<in> set ?evs" by simp
  have one: "length (probe_cb_calls (run_probe ?evs (probe_sources (new_probe ''wlan0'' ?protos)))) = 1"
    using probe_completion_exactly_once [of ?evs "''wlan0''" ?protos] fired
    unfolding Let_def by blast
  have who: "probe_cb_calls (run_probe ?evs (probe_sources (new_probe ''wlan0'' ?protos)))
     = [Winner \<lparr> driver_name = ''d3'', native_probe = None, open_result = (\<lambda>d t. (True, [])) \<rparr>]"
    by (simp add: new_probe_def probe_sources_def complete_probe_def resolve_def
        timer_expired_def cancel_def Let_def close_attempt_def)
  from one who show ?thesis by (rule conjI)
qed

section \<open>Properties of the source supervisor\<close>






lemma retry_source_fields [simp]:
  "source_id (retry_source tk s) = source_id s"
  "source_definition (retry_source tk s) = source_definition s"
  "src_proto (retry_source tk s) = src_proto s"
  by (simp_all add: retry_source_def Let_def split: prod.splits)











section \<open>Properties of the frame codec\<close>

lemma char_roundtrip [simp]: "char_of_byte (byte_of_char c) = c"
  by (simp add: char_of_byte_def byte_of_char_def unat_of_nat)

lemma string_roundtrip [simp]: "map char_of_byte (map byte_of_char s) = s"
  by (induction s) simp_all

lemma length_be16 [simp]: "length (be16 n) = 2"
  by (simp add: be16_def)

lemma length_be32 [simp]: "length (be32 n) = 4"
  by (simp add: be32_def)

lemma rd16_be16: "n < 65536 \<Longrightarrow> rd16 (be16 n @ xs) = n"
  by (simp add: be16_def unat_of_nat) 

lemma split4:
  "n div 16777216 * 16777216 + n div 65536 mod 256 * 65536 + n div 256 mod 256 * 256 + n mod 256
     = (n::nat)"
proof -
  have a: "n = n div 256 * 256 + n mod 256" by simp
  have b: "n div 256 = n div 65536 * 256 + n div 256 mod 256"
    using div_mult_mod_eq [of "n div 256" 256] by (simp add: div_mult2_eq [symmetric])
  have c: "n div 65536 = n div 16777216 * 256 + n div 65536 mod 256"
    using div_mult_mod_eq [of "n div 65536" 256] by (simp add: div_mult2_eq [symmetric])
  have "n = ((n div 16777216 * 256 + n div 65536 mod 256) * 256 + n div 256 mod 256) * 256 + n mod 256"
    using a b c by presburger
  then show ?thesis by (simp add: algebra_simps)
qed

lemma rd32_be32: "n < 4294967296 \<Longrightarrow> rd32 (be32 n @ xs) = n"
  by (simp add: be32_def unat_of_nat split4)

lemma unat_lt_2p32: "unat (w :: 32 word) < 4294967296"
  using unsigned_less [of w, where 'a = nat] by simp

lemma rd32_be32_word [simp]: "rd32 (be32 (unat (w :: 32 word)) @ xs) = unat w"
  by (rule rd32_be32) (rule unat_lt_2p32)

lemma parse_kv_emit_kv:
  assumes "valid_kv ob"
  shows "parse_kv (emit_kv ob @ rest) = Some (ob, rest)"
proof -
  from assms have k: "length (key ob) < 65536" and s: "unat (kv_size ob) = length (object ob)"
    by (simp_all add: valid_kv_def)
  let ?k = "map byte_of_char (key ob)"
  let ?tail = "be32 (unat (kv_size ob)) @ object ob @ rest"
  have e: "emit_kv ob @ rest = be16 (length (key ob)) @ ?k @ ?tail"
    by (simp add: emit_kv_def s)
  have r16: "rd16 (be16 (length (key ob)) @ ?k @ ?tail) = length (key ob)"
    using k by (rule rd16_be16)
  have d2: "drop 2 (be16 (length (key ob)) @ ?k @ ?tail) = ?k @ ?tail"
    by simp
  have tk: "take (length (key ob)) (?k @ ?tail) = ?k" by simp
  have dk: "drop (length (key ob)) (?k @ ?tail) = ?tail" by simp
  have r32: "rd32 ?tail = unat (kv_size ob)" by simp
  have d4: "drop 4 ?tail = object ob @ rest" by simp
  have w: "of_nat (length (object ob)) = kv_size ob"
    by (simp flip: s)
  have c: "map (char_of_byte \<circ> byte_of_char) (key ob) = key ob"
    by (simp flip: map_map)
  have ob: "\<lparr> key = map (char_of_byte \<circ> byte_of_char) (key ob),
              kv_size = of_nat (length (object ob)), object = object ob \<rparr> = ob"
    by (simp add: w c)
  show ?thesis
    unfolding e parse_kv_def
    by (simp only: r16 d2 tk dk r32 d4 Let_def) (simp add: s ob)
qed

lemma parse_kvs_emit:
  "list_all valid_kv kvs \<Longrightarrow>
     parse_kvs (length kvs) (concat (map emit_kv kvs) @ rest) = Some (kvs, rest)"
  by (induction kvs) (simp_all add: parse_kv_emit_kv)

text \<open>
  C9. For every frame type and ordered list of keyed objects that \<open>emit\<close> can
  represent, parsing what \<open>emit\<close> wrote gives back the type and the list, every keyed
  object with its key, size and object bytes, and leaves the bytes that follow the frame:
  \<open>parse(emit(t, kv)) = (t, kv)\<close>, whatever the magic number and the checksum function.
\<close>

theorem frame_roundtrip:
  assumes "valid_frame ty kvs"
  shows "parse_frame magic crc (emit magic crc ty kvs @ rest) = Parsed (ty, kvs) rest"
proof -
  let ?payload = "concat (map emit_kv kvs)"
  let ?t = "map byte_of_char ty"
  let ?hdr = "be32 (length kvs) @ be32 (length ?payload)"
  let ?covered = "?t @ ?hdr @ ?payload"
  let ?crc = "be32 (unat (crc ?covered))"
  from assms have lt: "length ty < 65536" and ln: "length kvs < 4294967296"
    and lp: "length ?payload < 4294967296" and v: "list_all valid_kv kvs"
    by (simp_all add: valid_frame_def)
  have e: "emit magic crc ty kvs @ rest =
        be32 (unat magic) @ be16 (length ty) @ ?t @ be32 (length kvs) @ be32 (length ?payload)
          @ ?payload @ ?crc @ rest"
    by (simp add: emit_def Let_def)
  let ?s1 = "?t @ be32 (length kvs) @ be32 (length ?payload) @ ?payload @ ?crc @ rest"
  let ?s2 = "be32 (length kvs) @ be32 (length ?payload) @ ?payload @ ?crc @ rest"
  let ?s3 = "?payload @ ?crc @ rest"
  have len: "\<not> length (be32 (unat magic) @ be16 (length ty) @ ?s1) < 6" by simp
  have m: "rd32 (be32 (unat magic) @ be16 (length ty) @ ?s1) = unat magic" by simp
  have tl: "rd16 (drop 4 (be32 (unat magic) @ be16 (length ty) @ ?s1)) = length ty"
    using rd16_be16 [OF lt] by simp
  have d6: "drop 6 (be32 (unat magic) @ be16 (length ty) @ ?s1) = ?s1" by simp
  have l1: "\<not> length ?s1 < length ty + 8" by simp
  have tt: "take (length ty) ?s1 = ?t" by simp
  have dt: "drop (length ty) ?s1 = ?s2" by simp
  have nkv: "rd32 ?s2 = length kvs" using ln by (rule rd32_be32)
  have pl: "rd32 (drop 4 ?s2) = length ?payload" using rd32_be32 [OF lp] by simp
  have d8: "drop 8 ?s2 = ?s3" by simp
  have t8: "take 8 ?s2 = ?hdr" by simp
  have l3: "\<not> length ?s3 < length ?payload + 4" by simp
  have tp: "take (length ?payload) ?s3 = ?payload" by simp
  have dp: "drop (length ?payload) ?s3 = ?crc @ rest" by simp
  have rc: "rd32 (?crc @ rest) = unat (crc (?t @ ?hdr @ ?payload))" by simp
  have d4: "drop 4 (?crc @ rest) = rest" by simp
  have kv: "parse_kvs (length kvs) ?payload = Some (kvs, [])"
    using parse_kvs_emit [OF v, of "[]"] by simp
  show ?thesis
    unfolding e parse_frame_def
    by (simp only: len m tl d6 l1 tt dt nkv pl d8 t8 l3 tp dp rc d4 kv Let_def
        if_False refl not_False_eq_True option.case prod.case list.case simp_thms string_roundtrip)
qed

theorem frame_roundtrip_witness:
  "parse_frame 0xDEC0DE42 (\<lambda>bs. of_nat (sum_list (map unat bs)))
     (emit 0xDEC0DE42 (\<lambda>bs. of_nat (sum_list (map unat bs))) ''PROBE_RESP''
        [\<lparr> key = ''success'', kv_size = 2, object = [1, 255] \<rparr>,
         \<lparr> key = ''msg'', kv_size = 0, object = [] \<rparr>])
   = Parsed (''PROBE_RESP'',
        [\<lparr> key = ''success'', kv_size = 2, object = [1, 255] \<rparr>,
         \<lparr> key = ''msg'', kv_size = 0, object = [] \<rparr>]) []"
proof -
  have v: "valid_frame ''PROBE_RESP''
        [\<lparr> key = ''success'', kv_size = 2, object = [1, 255] \<rparr>,
         \<lparr> key = ''msg'', kv_size = 0, object = [] \<rparr>]"
    by (simp add: valid_frame_def valid_kv_def emit_kv_def)
  show ?thesis
    using frame_roundtrip [OF v, of "0xDEC0DE42" "\<lambda>bs. of_nat (sum_list (map unat bs))" "[]"]
    by simp
qed

end
